theory Spec2Isabelle
  imports Main "HOL-Library.DAList"
begin

section \<open>The observer manager of the stack operator\<close>

text \<open>
  A sequential model of \<^verbatim>\<open>pkg/controller/elasticsearch/observer/manager.go\<close>.
  The manager owns a Go map from cluster names to pointers to observers. Observers are
  heap objects that the manager, its callers and the observers' own goroutines share, so
  the model keeps an explicit store: a pointer is an index into a list of observer
  objects, and \<^verbatim>\<open>NewObserver\<close> allocates at the end of that list.

  Every method takes the lock only around a single map access and releases it before
  the next statement, so in an execution where calls do not overlap the lock has no
  effect on the result; the \<^verbatim>\<open>lock\<close> field is therefore left out of the record.
  Interleavings of overlapping calls are outside this model.
\<close>

subsection \<open>Data\<close>

text \<open>\<^verbatim>\<open>types.NamespacedName\<close> of the Kubernetes API machinery: a comparable pair of strings.\<close>

record NamespacedName =
  Namespace :: string
  Name :: string

type_synonym ptr = nat

text \<open>
  Modelled from the spec: the \<^verbatim>\<open>Observer\<close> struct, \<^verbatim>\<open>NewObserver\<close>, \<^verbatim>\<open>Stop\<close> and
  \<^verbatim>\<open>LastState\<close> are declared in another file of the package, outside \<^verbatim>\<open>manager.go\<close>.
  The spec gives a watcher the identity it targets, the client configuration it was built
  with, the settings handed to it, and a cached state that is an ``unknown'' sentinel
  (here \<open>None\<close>) until the first observation. \<^verbatim>\<open>Stop\<close> is idempotent, which a flag models.
  Only the field name \<^verbatim>\<open>esClient\<close> is fixed by the manager's code.
\<close>

type_synonym 'o State = "'o option"

record ('c, 's, 'o) Observer =
  cluster :: NamespacedName
  esClient :: 'c
  osettings :: 's
  stopped :: bool
  lastState :: "'o State"

text \<open>
  The outbound calls that create or cancel background work, in the order in which they are
  made. This log is not a field of the program; it records what the program does to its
  collaborator so that ``stopped once'' and ``stopped before created'' can be stated.
\<close>

datatype call = NewObserverCall ptr | StopCall ptr

record 's Manager =
  observers :: "(NamespacedName, ptr) alist"
  settings :: 's

record ('c, 's, 'o) world =
  mgr :: "'s Manager"
  heap :: "('c, 's, 'o) Observer list"
  calls :: "call list"

subsection \<open>The collaborator\<close>

text \<open>
  Modelled from the spec: \<^verbatim>\<open>NewObserver(cluster, esClient, settings)\<close> builds a watcher bound
  to its arguments, starts it and returns a pointer to it. The new object gets the next
  free address.
\<close>

definition NewObserver ::
  "NamespacedName \<Rightarrow> 'c \<Rightarrow> 's \<Rightarrow> ('c, 's, 'o) world \<Rightarrow> ptr \<times> ('c, 's, 'o) world" where
  "NewObserver clusterName client st w =
     (length (heap w),
      w\<lparr>heap := heap w @
           [\<lparr>cluster = clusterName, esClient = client, osettings = st,
             stopped = False, lastState = None\<rparr>],
        calls := calls w @ [NewObserverCall (length (heap w))]\<rparr>)"

text \<open>
  Modelled from the spec: \<^verbatim>\<open>observer.Stop()\<close> cancels the watcher's background task and
  returns when it has ceased. An address outside the store stands for a nil pointer, on
  which the method call panics: the result is \<open>None\<close>.
\<close>

definition Stop :: "ptr \<Rightarrow> ('c, 's, 'o) world \<Rightarrow> ('c, 's, 'o) world option" where
  "Stop p w =
     (if p < length (heap w)
      then Some (w\<lparr>heap := (heap w)[p := (heap w ! p)\<lparr>stopped := True\<rparr>],
                   calls := calls w @ [StopCall p]\<rparr>)
      else None)"

text \<open>Modelled from the spec: \<^verbatim>\<open>observer.LastState()\<close> reads the cached state.\<close>

definition LastState :: "ptr \<Rightarrow> ('c, 's, 'o) world \<Rightarrow> 'o State option" where
  "LastState p w = (if p < length (heap w) then Some (lastState (heap w ! p)) else None)"

text \<open>The field read \<^verbatim>\<open>observer.esClient\<close>, which panics on a nil pointer.\<close>

definition esClientOf :: "ptr \<Rightarrow> ('c, 's, 'o) world \<Rightarrow> 'c option" where
  "esClientOf p w = (if p < length (heap w) then Some (esClient (heap w ! p)) else None)"

subsection \<open>The manager\<close>

definition NewManager :: "'s \<Rightarrow> 's Manager" where
  "NewManager st = \<lparr>observers = DAList.empty, settings = st\<rparr>"

text \<open>The world in which a manager has just been constructed and nothing else exists.\<close>

definition init :: "'s \<Rightarrow> ('c, 's, 'o) world" where
  "init st = \<lparr>mgr = NewManager st, heap = [], calls = []\<rparr>"

definition createObserver ::
  "NamespacedName \<Rightarrow> 'c \<Rightarrow> ('c, 's, 'o) world \<Rightarrow> ptr \<times> ('c, 's, 'o) world" where
  "createObserver clusterName client w =
     (case NewObserver clusterName client (settings (mgr w)) w of
        (observer, w') \<Rightarrow>
          (observer,
           w'\<lparr>mgr := (mgr w')\<lparr>observers :=
                 DAList.update clusterName observer (observers (mgr w'))\<rparr>\<rparr>))"

definition StopObserving ::
  "NamespacedName \<Rightarrow> ('c, 's, 'o) world \<Rightarrow> ('c, 's, 'o) world option" where
  "StopObserving clusterName w =
     (case DAList.lookup (observers (mgr w)) clusterName of
        None \<Rightarrow> Some w
      | Some observer \<Rightarrow>
          (case Stop observer w of
             None \<Rightarrow> None
           | Some w' \<Rightarrow>
               Some (w'\<lparr>mgr := (mgr w')\<lparr>observers :=
                       DAList.delete clusterName (observers (mgr w'))\<rparr>\<rparr>)))"

text \<open>
  \<^verbatim>\<open>Observe\<close>. The comparison \<^verbatim>\<open>observer.esClient.Equal(esClient)\<close> belongs to the client
  package, outside \<^verbatim>\<open>manager.go\<close>; it is the parameter \<open>Equal\<close> of the model.
  The three cases of the \<^verbatim>\<open>switch\<close> are kept in their order.
\<close>

definition Observe ::
  "('c \<Rightarrow> 'c \<Rightarrow> bool) \<Rightarrow> NamespacedName \<Rightarrow> 'c \<Rightarrow> ('c, 's, 'o) world
     \<Rightarrow> (ptr \<times> ('c, 's, 'o) world) option" where
  "Observe Equal clusterName client w =
     (case DAList.lookup (observers (mgr w)) clusterName of
        None \<Rightarrow> Some (createObserver clusterName client w)
      | Some observer \<Rightarrow>
          (case esClientOf observer w of
             None \<Rightarrow> None
           | Some bound \<Rightarrow>
               if \<not> Equal bound client
               then (case StopObserving clusterName w of
                       None \<Rightarrow> None
                     | Some w' \<Rightarrow> Some (createObserver clusterName client w'))
               else Some (observer, w)))"

definition ObservedStateResolver ::
  "('c \<Rightarrow> 'c \<Rightarrow> bool) \<Rightarrow> NamespacedName \<Rightarrow> 'c \<Rightarrow> ('c, 's, 'o) world
     \<Rightarrow> ('o State \<times> ('c, 's, 'o) world) option" where
  "ObservedStateResolver Equal clusterName client w =
     (case Observe Equal clusterName client w of
        None \<Rightarrow> None
      | Some (observer, w') \<Rightarrow>
          (case LastState observer w' of
             None \<Rightarrow> None
           | Some s \<Rightarrow> Some (s, w')))"

text \<open>
  \<^verbatim>\<open>List\<close>: the loop appends every key of the map to an empty slice. Go leaves the order of
  a map iteration open; the model walks the entries in the order of the association list,
  and the theorems below speak of the elements of the result only.
\<close>

fun List_loop :: "(NamespacedName \<times> ptr) list \<Rightarrow> NamespacedName list \<Rightarrow> NamespacedName list" where
  "List_loop [] list = list"
| "List_loop ((name, _) # rest) list = List_loop rest (list @ [name])"

definition List :: "('c, 's, 'o) world \<Rightarrow> NamespacedName list" where
  "List w = List_loop (DAList.impl_of (observers (mgr w))) []"

subsection \<open>Sequences of calls\<close>

text \<open>
  The calls a client of the manager can make, and their effect on the world. A call that
  panics has no successor world. \<^verbatim>\<open>List\<close> only reads.
\<close>

datatype 'c op =
  ObserveOp NamespacedName 'c
| ResolveOp NamespacedName 'c
| CreateOp NamespacedName 'c
| StopOp NamespacedName
| ListOp

fun step :: "('c \<Rightarrow> 'c \<Rightarrow> bool) \<Rightarrow> 'c op \<Rightarrow> ('c, 's, 'o) world \<Rightarrow> ('c, 's, 'o) world option" where
  "step Equal (ObserveOp k c) w = map_option snd (Observe Equal k c w)"
| "step Equal (ResolveOp k c) w = map_option snd (ObservedStateResolver Equal k c w)"
| "step Equal (CreateOp k c) w = Some (snd (createObserver k c w))"
| "step Equal (StopOp k) w = StopObserving k w"
| "step Equal ListOp w = Some w"

fun run :: "('c \<Rightarrow> 'c \<Rightarrow> bool) \<Rightarrow> 'c op list \<Rightarrow> ('c, 's, 'o) world \<Rightarrow> ('c, 's, 'o) world option" where
  "run Equal [] w = Some w"
| "run Equal (x # xs) w = (case step Equal x w of None \<Rightarrow> None | Some w' \<Rightarrow> run Equal xs w')"

subsection \<open>The registry invariant\<close>

text \<open>
  An entry of the map is live when its pointer is an object of the store, that object has
  not been stopped, and it is the watcher of the identity under which it is registered.
\<close>

definition live_entry :: "('c, 's, 'o) world \<Rightarrow> NamespacedName \<times> ptr \<Rightarrow> bool" where
  "live_entry w e =
     (case e of (k, p) \<Rightarrow>
        p < length (heap w) \<and> \<not> stopped (heap w ! p) \<and> cluster (heap w ! p) = k)"

definition Inv :: "('c, 's, 'o) world \<Rightarrow> bool" where
  "Inv w = list_all (live_entry w) (DAList.impl_of (observers (mgr w)))"

text \<open>The number of watchers created by a log of calls.\<close>

fun created :: "call list \<Rightarrow> nat" where
  "created [] = 0"
| "created (NewObserverCall _ # cs) = Suc (created cs)"
| "created (StopCall _ # cs) = created cs"

subsection \<open>The specification's account of Resolve\<close>

text \<open>
  This definition follows the words of the specification, not the code: look the identity
  up; if there is no watcher, create one and return its state; if there is one and its
  client is not equal to the supplied one, stop it, remove it, create a new one and return
  its state; otherwise return the cached state of the existing watcher and do nothing
  else. The specification has no notion of a nil pointer, so the old watcher is read
  directly from the store.
\<close>

definition Resolve_spec ::
  "('c \<Rightarrow> 'c \<Rightarrow> bool) \<Rightarrow> NamespacedName \<Rightarrow> 'c \<Rightarrow> ('c, 's, 'o) world
     \<Rightarrow> 'o State \<times> ('c, 's, 'o) world" where
  "Resolve_spec Equal identity clientConfig w =
     (case DAList.lookup (observers (mgr w)) identity of
        None \<Rightarrow>
          (case createObserver identity clientConfig w of
             (watcher, w') \<Rightarrow> (lastState (heap w' ! watcher), w'))
      | Some old \<Rightarrow>
          if \<not> Equal (esClient (heap w ! old)) clientConfig
          then
            (let stopped_old =
                   w\<lparr>heap := (heap w)[old := (heap w ! old)\<lparr>stopped := True\<rparr>],
                     calls := calls w @ [StopCall old]\<rparr>;
                 removed =
                   stopped_old\<lparr>mgr := (mgr stopped_old)\<lparr>observers :=
                     DAList.delete identity (observers (mgr stopped_old))\<rparr>\<rparr>
             in case createObserver identity clientConfig removed of
                  (watcher, w') \<Rightarrow> (lastState (heap w' ! watcher), w'))
          else (lastState (heap w ! old), w))"

subsection \<open>Example inputs\<close>

text \<open>
  Two cluster names, and the world in which a manager with settings 7 observes the first
  of them through client 1: one watcher at address 0, with a cached state, not stopped.
\<close>

abbreviation (input) es1 :: NamespacedName where
  "es1 \<equiv> \<lparr>Namespace = ''default'', Name = ''es1''\<rparr>"

abbreviation (input) es2 :: NamespacedName where
  "es2 \<equiv> \<lparr>Namespace = ''default'', Name = ''es2''\<rparr>"

abbreviation (input) W1 :: "(nat, nat, nat) world" where
  "W1 \<equiv> \<lparr>mgr = \<lparr>observers = DAList.update es1 0 DAList.empty, settings = 7\<rparr>,
          heap = [\<lparr>cluster = es1, esClient = 1, osettings = 7, stopped = False,
                   lastState = Some 5\<rparr>],
          calls = [NewObserverCall 0]\<rparr>"

text \<open>
  The same manager observing both clusters, the second through client 3 at address 1.
\<close>

abbreviation (input) W2 :: "(nat, nat, nat) world" where
  "W2 \<equiv> \<lparr>mgr = \<lparr>observers = DAList.update es2 1 (DAList.update es1 0 DAList.empty),
                  settings = 7\<rparr>,
          heap = [\<lparr>cluster = es1, esClient = 1, osettings = 7, stopped = False,
                   lastState = Some 5\<rparr>,
                  \<lparr>cluster = es2, esClient = 3, osettings = 7, stopped = False,
                   lastState = None\<rparr>],
          calls = [NewObserverCall 0, NewObserverCall 1]\<rparr>"

section \<open>Properties\<close>

subsection \<open>What each operation computes\<close>


lemma List_loop_eq: "List_loop es acc = acc @ map fst es"
  by (induction es acc rule: List_loop.induct) simp_all

lemma List_eq: "List w = map fst (DAList.impl_of (observers (mgr w)))"
  by (simp add: List_def List_loop_eq)

lemma lookup_Some_iff:
  "DAList.lookup al k = Some p \<longleftrightarrow> (k, p) \<in> set (DAList.impl_of al)"
  by (simp add: DAList.lookup.rep_eq)

lemma Inv_lookup:
  "Inv w \<longleftrightarrow>
     (\<forall>k p. DAList.lookup (observers (mgr w)) k = Some p \<longrightarrow>
        p < length (heap w) \<and> \<not> stopped (heap w ! p) \<and> cluster (heap w ! p) = k)"
  by (auto simp: Inv_def live_entry_def list_all_iff lookup_Some_iff)

lemma createObserver_eq:
  "createObserver k c w =
     (length (heap w),
      \<lparr>mgr = \<lparr>observers = DAList.update k (length (heap w)) (observers (mgr w)),
               settings = settings (mgr w)\<rparr>,
       heap = heap w @ [\<lparr>cluster = k, esClient = c, osettings = settings (mgr w),
                         stopped = False, lastState = None\<rparr>],
       calls = calls w @ [NewObserverCall (length (heap w))]\<rparr>)"
  by (simp add: createObserver_def NewObserver_def)

lemma StopObserving_absent:
  "DAList.lookup (observers (mgr w)) k = None \<Longrightarrow> StopObserving k w = Some w"
  by (simp add: StopObserving_def)

lemma StopObserving_present:
  "DAList.lookup (observers (mgr w)) k = Some p \<Longrightarrow> p < length (heap w) \<Longrightarrow>
   StopObserving k w =
     Some \<lparr>mgr = \<lparr>observers = DAList.delete k (observers (mgr w)),
                  settings = settings (mgr w)\<rparr>,
           heap = (heap w)[p := (heap w ! p)\<lparr>stopped := True\<rparr>],
           calls = calls w @ [StopCall p]\<rparr>"
  by (simp add: StopObserving_def Stop_def)


lemma Observe_absent:
  "DAList.lookup (observers (mgr w)) k = None \<Longrightarrow>
   Observe Equal k c w = Some (createObserver k c w)"
  by (simp add: Observe_def)

lemma Observe_hot:
  "DAList.lookup (observers (mgr w)) k = Some p \<Longrightarrow> p < length (heap w) \<Longrightarrow>
   Equal (esClient (heap w ! p)) c \<Longrightarrow> Observe Equal k c w = Some (p, w)"
  by (simp add: Observe_def esClientOf_def)

lemma Observe_replace:
  "DAList.lookup (observers (mgr w)) k = Some p \<Longrightarrow> p < length (heap w) \<Longrightarrow>
   \<not> Equal (esClient (heap w ! p)) c \<Longrightarrow>
   Observe Equal k c w = map_option (createObserver k c) (StopObserving k w)"
  by (simp add: Observe_def esClientOf_def split: option.splits)

lemma Observe_nil:
  "DAList.lookup (observers (mgr w)) k = Some p \<Longrightarrow> \<not> p < length (heap w) \<Longrightarrow>
   Observe Equal k c w = None"
  by (simp add: Observe_def esClientOf_def)

lemma Inv_init: "Inv (init st)"
  by (simp add: Inv_def init_def NewManager_def DAList.empty.rep_eq)

lemma Inv_createObserver:
  assumes "Inv w"
  shows "Inv (snd (createObserver k c w))"
  unfolding Inv_lookup
proof (intro allI impI)
  fix k' p'
  let ?w' = "snd (createObserver k c w)"
  assume l: "DAList.lookup (observers (mgr ?w')) k' = Some p'"
  show "p' < length (heap ?w') \<and> \<not> stopped (heap ?w' ! p') \<and> cluster (heap ?w' ! p') = k'"
  proof (cases "k' = k")
    case True
    with l have "p' = length (heap w)"
      by (simp add: createObserver_eq)
    with True show ?thesis
      by (simp add: createObserver_eq)
  next
    case False
    with l have "DAList.lookup (observers (mgr w)) k' = Some p'"
      by (simp add: createObserver_eq)
    with assms have "p' < length (heap w)" "\<not> stopped (heap w ! p')" "cluster (heap w ! p') = k'"
      by (auto simp: Inv_lookup)
    then show ?thesis
      by (simp add: createObserver_eq nth_append)
  qed
qed

lemma Inv_StopObserving:
  assumes "Inv w"
  shows "\<exists>w'. StopObserving k w = Some w' \<and> Inv w'"
proof (cases "DAList.lookup (observers (mgr w)) k")
  case None
  with assms show ?thesis by (simp add: StopObserving_absent)
next
  case (Some p)
  with assms have p: "p < length (heap w)" "cluster (heap w ! p) = k"
    by (auto simp: Inv_lookup)
  let ?w' = "\<lparr>mgr = \<lparr>observers = DAList.delete k (observers (mgr w)),
                       settings = settings (mgr w)\<rparr>,
               heap = (heap w)[p := (heap w ! p)\<lparr>stopped := True\<rparr>],
               calls = calls w @ [StopCall p]\<rparr>"
  have "Inv ?w'"
    unfolding Inv_lookup
  proof (intro allI impI)
    fix k' p'
    assume "DAList.lookup (observers (mgr ?w')) k' = Some p'"
    then have l: "k' \<noteq> k" "DAList.lookup (observers (mgr w)) k' = Some p'"
      by (auto split: if_splits)
    with assms have q: "p' < length (heap w)" "\<not> stopped (heap w ! p')" "cluster (heap w ! p') = k'"
      by (auto simp: Inv_lookup)
    with l p have "p' \<noteq> p" by auto
    with q show "p' < length (heap ?w') \<and> \<not> stopped (heap ?w' ! p') \<and> cluster (heap ?w' ! p') = k'"
      by simp
  qed
  with Some p show ?thesis
    by (simp add: StopObserving_present)
qed

lemma Inv_Observe:
  assumes "Inv w"
  shows "\<exists>p w'. Observe Equal k c w = Some (p, w') \<and> Inv w'"
proof (cases "DAList.lookup (observers (mgr w)) k")
  case None
  then have "Observe Equal k c w = Some (createObserver k c w)"
    by (rule Observe_absent)
  with Inv_createObserver[OF assms, of k c] show ?thesis
    by (cases "createObserver k c w") auto
next
  case (Some p)
  with assms have p: "p < length (heap w)" by (auto simp: Inv_lookup)
  show ?thesis
  proof (cases "Equal (esClient (heap w ! p)) c")
    case True
    with Some p assms show ?thesis by (simp add: Observe_hot)
  next
    case False
    from Inv_StopObserving[OF assms, of k] obtain w1
      where w1: "StopObserving k w = Some w1" "Inv w1" by blast
    with Inv_createObserver[of w1 k c] Observe_replace[of w k p Equal c, OF Some p False] show ?thesis
      by (cases "createObserver k c w1") auto
  qed
qed

lemma Observe_returns_object:
  assumes "Observe Equal k c w = Some (p, w')"
  shows "p < length (heap w')"
  using assms
  by (auto simp: Observe_def esClientOf_def createObserver_eq
      split: option.splits if_splits)

lemma Inv_ObservedStateResolver:
  assumes "Inv w"
  shows "\<exists>s w'. ObservedStateResolver Equal k c w = Some (s, w') \<and> Inv w'"
proof -
  from Inv_Observe[OF assms, of Equal k c] obtain p w'
    where o: "Observe Equal k c w = Some (p, w')" "Inv w'" by blast
  with Observe_returns_object[OF o(1)] show ?thesis
    by (simp add: ObservedStateResolver_def LastState_def)
qed

lemma Inv_step:
  assumes "Inv w"
  shows "\<exists>w'. step Equal x w = Some w' \<and> Inv w'"
proof (cases x)
  case (ObserveOp k c)
  with Inv_Observe[OF assms, of Equal k c] show ?thesis by auto
next
  case (ResolveOp k c)
  with Inv_ObservedStateResolver[OF assms, of Equal k c] show ?thesis by auto
next
  case (CreateOp k c)
  with Inv_createObserver[OF assms, of k c] show ?thesis by simp
next
  case (StopOp k)
  with Inv_StopObserving[OF assms, of k] show ?thesis by simp
next
  case ListOp
  with assms show ?thesis by simp
qed

lemma Inv_run:
  assumes "Inv w"
  shows "\<exists>w'. run Equal xs w = Some w' \<and> Inv w'"
  using assms
proof (induction xs arbitrary: w)
  case Nil
  then show ?case by simp
next
  case (Cons x xs)
  from Inv_step[OF Cons.prems, of Equal x] obtain w1
    where "step Equal x w = Some w1" "Inv w1" by blast
  with Cons.IH[of w1] show ?case by simp
qed

lemma distinct_List: "distinct (List w)"
  by (simp add: List_eq)

lemma count_list_distinct:
  "distinct xs \<Longrightarrow> count_list xs x = (if x \<in> set xs then 1 else 0)"
  by (induction xs) auto

lemma set_List: "set (List w) = dom (DAList.lookup (observers (mgr w)))"
  by (auto simp: List_eq dom_def lookup_Some_iff intro: rev_image_eqI)

subsection \<open>The claims\<close>

text \<open>
  C1. The registry invariant. A freshly constructed manager satisfies it; from a world that
  satisfies it every operation (\<^verbatim>\<open>Observe\<close>, \<^verbatim>\<open>ObservedStateResolver\<close>, \<^verbatim>\<open>createObserver\<close>,
  \<^verbatim>\<open>StopObserving\<close>, \<^verbatim>\<open>List\<close>) completes without a panic and leaves a world that satisfies
  it: the keys of the map are pairwise different, and every entry points to an object of
  the store that has not been stopped. Hence the same holds after any sequence of
  operations on a fresh manager.
\<close>

theorem registry_invariant:
  "Inv (init st :: ('c, 's, 'o) world) \<and>
   (Inv w \<longrightarrow>
      (\<exists>w'. step Equal x w = Some w' \<and> Inv w' \<and> distinct (List w') \<and>
         (\<forall>k p. DAList.lookup (observers (mgr w')) k = Some p \<longrightarrow>
            p < length (heap w') \<and> \<not> stopped (heap w' ! p)))) \<and>
   (\<exists>w'. run Equal xs (init st :: ('c, 's, 'o) world) = Some w' \<and> Inv w' \<and>
      distinct (List w') \<and>
      (\<forall>k p. DAList.lookup (observers (mgr w')) k = Some p \<longrightarrow>
         p < length (heap w') \<and> \<not> stopped (heap w' ! p)))"
proof (intro conjI impI)
  show "Inv (init st :: ('c, 's, 'o) world)" by (rule Inv_init)
next
  assume "Inv w"
  from Inv_step[OF this, of Equal x] obtain w' where "step Equal x w = Some w'" "Inv w'"
    by blast
  then show "\<exists>w'. step Equal x w = Some w' \<and> Inv w' \<and> distinct (List w') \<and>
         (\<forall>k p. DAList.lookup (observers (mgr w')) k = Some p \<longrightarrow>
            p < length (heap w') \<and> \<not> stopped (heap w' ! p))"
    by (auto simp: distinct_List Inv_lookup)
next
  from Inv_run[OF Inv_init, of Equal xs st] obtain w' :: "('c, 's, 'o) world"
    where "run Equal xs (init st) = Some w'" "Inv w'"
    by blast
  then show "\<exists>w'. run Equal xs (init st :: ('c, 's, 'o) world) = Some w' \<and> Inv w' \<and>
      distinct (List w') \<and>
      (\<forall>k p. DAList.lookup (observers (mgr w')) k = Some p \<longrightarrow>
         p < length (heap w') \<and> \<not> stopped (heap w' ! p))"
    by (auto simp: distinct_List Inv_lookup)
qed

theorem registry_invariant_witness:
  "Inv (snd (createObserver \<lparr>Namespace = ''default'', Name = ''es''\<rparr> (1::nat)
          (init (0::nat) :: (nat, nat, nat) world))) \<and>
   (\<exists>w'. step (=) (StopOp \<lparr>Namespace = ''default'', Name = ''es''\<rparr>)
            (snd (createObserver \<lparr>Namespace = ''default'', Name = ''es''\<rparr> (1::nat)
               (init (0::nat) :: (nat, nat, nat) world))) = Some w' \<and>
          Inv w' \<and> distinct (List w'))"
proof -
  let ?k = "\<lparr>Namespace = ''default'', Name = ''es''\<rparr>"
  let ?w = "snd (createObserver ?k (1::nat) (init (0::nat) :: (nat, nat, nat) world))"
  have h: "Inv ?w"
    by (simp add: Inv_def live_entry_def createObserver_eq init_def NewManager_def
        DAList.update.rep_eq DAList.empty.rep_eq)
  with registry_invariant[of "0::nat" ?w "(=)" "StopOp ?k" "[]"] show ?thesis
    by blast
qed

text \<open>
  C7. \<^verbatim>\<open>List\<close> returns the identities that are keys of the map: each of them once and no
  other. It is a function of the world that returns the slice only; the call leaves the
  world, and with it the map, as it was.
\<close>

theorem List_snapshot:
  "set (List w) = dom (DAList.lookup (observers (mgr w))) \<and>
   distinct (List w) \<and>
   (\<forall>k. count_list (List w) k = (if DAList.lookup (observers (mgr w)) k = None then 0 else 1)) \<and>
   step Equal ListOp w = Some w"
  using count_list_distinct[OF distinct_List, of w]
  by (auto simp: set_List distinct_List)

lemma StopObserving_removes:
  assumes "StopObserving k w = Some w'"
  shows "DAList.lookup (observers (mgr w')) k = None"
  using assms
  by (auto simp: StopObserving_def Stop_def split: option.splits if_splits)

text \<open>
  C3. The creation path: when no watcher is registered for the identity, \<^verbatim>\<open>Observe\<close> makes
  one call of \<^verbatim>\<open>NewObserver\<close>, the new watcher is bound to the identity and to the supplied
  client, it is the entry of the identity afterwards, and \<^verbatim>\<open>ObservedStateResolver\<close> returns
  the state of that watcher, which is the unknown state.
\<close>

theorem creation_path:
  assumes "DAList.lookup (observers (mgr w)) k = None"
  shows "\<exists>w'. Observe Equal k c w = Some (length (heap w), w') \<and>
           heap w' = heap w @ [\<lparr>cluster = k, esClient = c, osettings = settings (mgr w),
                                stopped = False, lastState = None\<rparr>] \<and>
           calls w' = calls w @ [NewObserverCall (length (heap w))] \<and>
           observers (mgr w') = DAList.update k (length (heap w)) (observers (mgr w)) \<and>
           DAList.lookup (observers (mgr w')) k = Some (length (heap w)) \<and>
           ObservedStateResolver Equal k c w = Some (lastState (heap w' ! length (heap w)), w') \<and>
           lastState (heap w' ! length (heap w)) = None"
  using assms
  by (simp add: ObservedStateResolver_def Observe_absent createObserver_eq LastState_def)

theorem creation_path_witness:
  "DAList.lookup (observers (mgr (init (7::nat) :: (nat, nat, nat) world))) es1 = None \<and>
   (\<exists>w'. Observe (=) es1 (1::nat) (init (7::nat) :: (nat, nat, nat) world) = Some (0, w') \<and>
      heap w' = [\<lparr>cluster = es1, esClient = 1, osettings = 7, stopped = False,
                  lastState = None\<rparr>] \<and>
      calls w' = [NewObserverCall 0] \<and>
      DAList.lookup (observers (mgr w')) es1 = Some 0 \<and>
      ObservedStateResolver (=) es1 (1::nat) (init (7::nat) :: (nat, nat, nat) world)
        = Some (None, w'))"
proof -
  have h: "DAList.lookup (observers (mgr (init (7::nat) :: (nat, nat, nat) world))) es1 = None"
    by (simp add: init_def NewManager_def)
  from creation_path[OF h, of "(=)" "1::nat"] h show ?thesis
    by (auto simp: init_def NewManager_def)
qed

text \<open>
  C2. The replacement path: when the identity has a watcher whose client is not Equal to
  the supplied one, \<^verbatim>\<open>Observe\<close> is \<^verbatim>\<open>StopObserving\<close> followed by \<^verbatim>\<open>createObserver\<close>. The
  old watcher receives one \<^verbatim>\<open>Stop\<close>, its entry is gone in the world between the two, the
  one \<^verbatim>\<open>NewObserver\<close> call comes after the \<^verbatim>\<open>Stop\<close>, the new watcher is bound to the
  supplied client and registered, and \<^verbatim>\<open>ObservedStateResolver\<close> returns its state, which is
  the unknown state.
\<close>

theorem replacement_path:
  assumes "DAList.lookup (observers (mgr w)) k = Some p"
    and "p < length (heap w)"
    and "\<not> Equal (esClient (heap w ! p)) c"
  shows "\<exists>w1 w'. StopObserving k w = Some w1 \<and>
           DAList.lookup (observers (mgr w1)) k = None \<and>
           stopped (heap w1 ! p) \<and>
           calls w1 = calls w @ [StopCall p] \<and>
           createObserver k c w1 = (length (heap w), w') \<and>
           Observe Equal k c w = Some (length (heap w), w') \<and>
           calls w' = calls w @ [StopCall p, NewObserverCall (length (heap w))] \<and>
           heap w' = (heap w)[p := (heap w ! p)\<lparr>stopped := True\<rparr>] @
             [\<lparr>cluster = k, esClient = c, osettings = settings (mgr w),
               stopped = False, lastState = None\<rparr>] \<and>
           DAList.lookup (observers (mgr w')) k = Some (length (heap w)) \<and>
           ObservedStateResolver Equal k c w = Some (lastState (heap w' ! length (heap w)), w') \<and>
           lastState (heap w' ! length (heap w)) = None"
  using assms
  by (simp add: ObservedStateResolver_def Observe_replace[of w k p Equal c]
      StopObserving_present createObserver_eq LastState_def nth_append)

theorem replacement_path_witness:
  "DAList.lookup (observers (mgr W1)) es1 = Some 0 \<and> 0 < length (heap W1) \<and>
   \<not> (esClient (heap W1 ! 0) = 2) \<and>
   (\<exists>w'. Observe (=) es1 2 W1 = Some (1, w') \<and>
      calls w' = [NewObserverCall 0, StopCall 0, NewObserverCall 1] \<and>
      heap w' = [\<lparr>cluster = es1, esClient = 1, osettings = 7, stopped = True,
                  lastState = Some 5\<rparr>,
                 \<lparr>cluster = es1, esClient = 2, osettings = 7, stopped = False,
                  lastState = None\<rparr>] \<and>
      DAList.lookup (observers (mgr w')) es1 = Some 1 \<and>
      ObservedStateResolver (=) es1 2 W1 = Some (None, w'))"
proof -
  have h1: "DAList.lookup (observers (mgr W1)) es1 = Some 0" by simp
  have h2: "0 < length (heap W1)" by simp
  have h3: "\<not> (esClient (heap W1 ! 0) = 2)" by simp
  from replacement_path[of W1 es1 0 "(=)" 2, OF h1 h2 h3] show ?thesis
    by auto
qed

text \<open>
  C5. \<^verbatim>\<open>StopObserving\<close> on an identity without an entry returns at once and leaves the world
  as it is; a second call right after a first one is such a call, whatever the first one
  did; and in a world that satisfies the invariant the call does not panic.
\<close>

theorem StopObserving_idempotent:
  "(DAList.lookup (observers (mgr w)) k = None \<longrightarrow> StopObserving k w = Some w) \<and>
   (StopObserving k w = Some w' \<longrightarrow> StopObserving k w' = Some w') \<and>
   (Inv w \<longrightarrow> (\<exists>w'. StopObserving k w = Some w' \<and> StopObserving k w' = Some w'))"
proof (intro conjI impI)
  assume "DAList.lookup (observers (mgr w)) k = None"
  then show "StopObserving k w = Some w" by (rule StopObserving_absent)
next
  assume "StopObserving k w = Some w'"
  then show "StopObserving k w' = Some w'"
    by (intro StopObserving_absent StopObserving_removes)
next
  assume "Inv w"
  from Inv_StopObserving[OF this, of k] obtain w1 where "StopObserving k w = Some w1"
    by blast
  then show "\<exists>w'. StopObserving k w = Some w' \<and> StopObserving k w' = Some w'"
    by (auto intro: StopObserving_absent StopObserving_removes)
qed

theorem StopObserving_idempotent_witness:
  "DAList.lookup (observers (mgr W1)) es2 = None \<and> StopObserving es2 W1 = Some W1 \<and>
   Inv W1 \<and>
   (\<exists>w'. StopObserving es1 W1 = Some w' \<and> StopObserving es1 w' = Some w' \<and>
      calls w' = [NewObserverCall 0, StopCall 0])"
proof -
  have h1: "DAList.lookup (observers (mgr W1)) es2 = None" by simp
  have h2: "Inv W1"
    by (simp add: Inv_def live_entry_def DAList.update.rep_eq DAList.empty.rep_eq)
  have c: "StopObserving es1 W1 = Some w' \<Longrightarrow> calls w' = [NewObserverCall 0, StopCall 0]" for w'
    by (auto simp: StopObserving_def Stop_def)
  from StopObserving_idempotent[of W1 es2] StopObserving_idempotent[of W1 es1] h1 h2 c
  show ?thesis by blast
qed

text \<open>
  C6. After \<^verbatim>\<open>StopObserving\<close> has returned, \<^verbatim>\<open>List\<close> does not contain the identity, and the
  next \<^verbatim>\<open>ObservedStateResolver\<close> of the identity, like the next \<^verbatim>\<open>Observe\<close>, allocates a new
  watcher: its address is not an address of the store before the call, so it is not the
  stopped watcher nor any older one; it is created by a call of \<^verbatim>\<open>NewObserver\<close>, it is
  registered and not stopped, the stopped watcher stays stopped, and the state that
  \<^verbatim>\<open>ObservedStateResolver\<close> returns is the state of the new watcher.
\<close>

theorem StopObserving_then_Resolve:
  assumes "StopObserving k w = Some w'"
  shows "k \<notin> set (List w') \<and>
         (\<exists>q w''. ObservedStateResolver Equal k c w' = Some (lastState (heap w'' ! q), w'') \<and>
            step Equal (ResolveOp k c) w' = Some w'' \<and>
            lastState (heap w'' ! q) = None \<and>
            Observe Equal k c w' = Some (q, w'') \<and>
            q = length (heap w') \<and> length (heap w') = length (heap w) \<and>
            (\<forall>p. DAList.lookup (observers (mgr w)) k = Some p \<longrightarrow> p < q \<and> stopped (heap w'' ! p)) \<and>
            heap w'' = heap w' @ [\<lparr>cluster = k, esClient = c, osettings = settings (mgr w'),
                                   stopped = False, lastState = None\<rparr>] \<and>
            calls w'' = calls w' @ [NewObserverCall q] \<and>
            DAList.lookup (observers (mgr w'')) k = Some q \<and>
            \<not> stopped (heap w'' ! q))"
proof -
  have absent: "DAList.lookup (observers (mgr w')) k = None"
    using assms by (rule StopObserving_removes)
  then have "k \<notin> set (List w')"
    by (simp add: set_List dom_def)
  moreover have "length (heap w') = length (heap w)"
    using assms by (auto simp: StopObserving_def Stop_def split: option.splits if_splits)
  moreover have "p < length (heap w') \<and> stopped (heap w' ! p)"
    if "DAList.lookup (observers (mgr w)) k = Some p" for p
    using assms that by (auto simp: StopObserving_def Stop_def split: option.splits if_splits)
  ultimately show ?thesis
    using absent
    by (simp add: ObservedStateResolver_def LastState_def Observe_absent createObserver_eq
        nth_append)
qed

theorem StopObserving_then_Resolve_witness:
  "\<exists>w'. StopObserving es1 W1 = Some w' \<and> es1 \<notin> set (List w') \<and>
     (\<exists>w''. ObservedStateResolver (=) es1 1 w' = Some (None, w'') \<and>
        Observe (=) es1 1 w' = Some (1, w'') \<and>
        heap w'' = [\<lparr>cluster = es1, esClient = 1, osettings = 7, stopped = True,
                     lastState = Some 5\<rparr>,
                    \<lparr>cluster = es1, esClient = 1, osettings = 7, stopped = False,
                     lastState = None\<rparr>] \<and>
        calls w'' = [NewObserverCall 0, StopCall 0, NewObserverCall 1] \<and>
        DAList.lookup (observers (mgr w'')) es1 = Some 1 \<and>
        stopped (heap w'' ! 0) \<and> \<not> stopped (heap w'' ! 1))"
proof -
  have h: "StopObserving es1 W1 =
    Some \<lparr>mgr = \<lparr>observers = DAList.delete es1 (DAList.update es1 0 DAList.empty), settings = 7\<rparr>,
          heap = [\<lparr>cluster = es1, esClient = 1, osettings = 7, stopped = True,
                   lastState = Some 5\<rparr>],
          calls = [NewObserverCall 0, StopCall 0]\<rparr>"
    by (simp add: StopObserving_def Stop_def)
  from StopObserving_then_Resolve[OF h, of "(=)" 1] h show ?thesis
    by auto
qed

subsection \<open>What a call of Observe leaves behind\<close>

lemma created_append: "created (xs @ ys) = created xs + created ys"
  by (induction xs rule: created.induct) simp_all

lemma Observe_post:
  assumes "Observe Equal k c w = Some (p, w')"
  shows "DAList.lookup (observers (mgr w')) k = Some p"
    and "p < length (heap w')"
    and "esClient (heap w' ! p) = c \<or> Equal (esClient (heap w' ! p)) c"
    and "created (calls w') \<le> Suc (created (calls w))"
proof -
  consider
    (absent) "DAList.lookup (observers (mgr w)) k = None"
  | (hot) q where "DAList.lookup (observers (mgr w)) k = Some q" "q < length (heap w)"
      "Equal (esClient (heap w ! q)) c"
  | (replace) q where "DAList.lookup (observers (mgr w)) k = Some q" "q < length (heap w)"
      "\<not> Equal (esClient (heap w ! q)) c"
  | (nil) q where "DAList.lookup (observers (mgr w)) k = Some q" "\<not> q < length (heap w)"
    by (cases "DAList.lookup (observers (mgr w)) k") auto
  then have "DAList.lookup (observers (mgr w')) k = Some p \<and> p < length (heap w') \<and>
    (esClient (heap w' ! p) = c \<or> Equal (esClient (heap w' ! p)) c) \<and>
    created (calls w') \<le> Suc (created (calls w))"
  proof cases
    case absent
    with assms show ?thesis
      by (auto simp: Observe_absent createObserver_eq created_append)
  next
    case hot
    with assms show ?thesis
      by (auto simp: Observe_hot)
  next
    case replace
    with assms show ?thesis
      by (auto simp: Observe_replace[of w k q Equal c] StopObserving_present
          createObserver_eq created_append nth_append)
  next
    case nil
    with assms show ?thesis
      by (simp add: Observe_nil)
  qed
  then show "DAList.lookup (observers (mgr w')) k = Some p"
    and "p < length (heap w')"
    and "esClient (heap w' ! p) = c \<or> Equal (esClient (heap w' ! p)) c"
    and "created (calls w') \<le> Suc (created (calls w))"
    by simp_all
qed

lemma ObservedStateResolver_eq:
  assumes "Observe Equal k c w = Some (p, w')"
  shows "ObservedStateResolver Equal k c w = Some (lastState (heap w' ! p), w')"
  using assms Observe_post(2)[OF assms]
  by (simp add: ObservedStateResolver_def LastState_def)

lemma step_Resolve_Observe:
  "step Equal (ResolveOp k c) w = step Equal (ObserveOp k c) w"
proof (cases "Observe Equal k c w")
  case None
  then show ?thesis by (simp add: ObservedStateResolver_def)
next
  case (Some r)
  then obtain p w' where "Observe Equal k c w = Some (p, w')" by (cases r) auto
  then show ?thesis by (simp add: ObservedStateResolver_eq)
qed

lemma run_hot:
  assumes "DAList.lookup (observers (mgr w)) k = Some p" "p < length (heap w)"
    "Equal (esClient (heap w ! p)) c"
    and "set xs \<subseteq> {ObserveOp k c, ResolveOp k c}"
  shows "run Equal xs w = Some w"
  using assms(4)
proof (induction xs)
  case Nil
  show ?case by simp
next
  case (Cons x xs)
  from assms(1-3) have "Observe Equal k c w = Some (p, w)" by (rule Observe_hot)
  with Cons.prems have "step Equal x w = Some w"
    by (auto simp: ObservedStateResolver_eq)
  with Cons show ?case by simp
qed

lemma run_same_client:
  assumes "Inv w" "Equal c c" "set xs \<subseteq> {ObserveOp k c, ResolveOp k c}"
  shows "\<exists>w'. run Equal xs w = Some w' \<and> created (calls w') \<le> Suc (created (calls w))"
proof (cases xs)
  case Nil
  then show ?thesis by simp
next
  case (Cons x xs')
  from Inv_Observe[OF assms(1), of Equal k c] obtain p w1
    where o: "Observe Equal k c w = Some (p, w1)" by blast
  from Cons assms(3) have "step Equal x w = step Equal (ObserveOp k c) w"
    using step_Resolve_Observe[of Equal k c w] by auto
  with o have s: "step Equal x w = Some w1" by simp
  from Observe_post(3)[OF o] assms(2) have "Equal (esClient (heap w1 ! p)) c" by auto
  with Observe_post(1,2)[OF o] Cons assms(3) have "run Equal xs' w1 = Some w1"
    by (intro run_hot[of w1 k p Equal c]) auto
  with s Cons Observe_post(4)[OF o] show ?thesis by simp
qed

text \<open>
  C4. The hot path: when the registered watcher's client is Equal to the supplied one,
  \<^verbatim>\<open>Observe\<close> returns that watcher and \<^verbatim>\<open>ObservedStateResolver\<close> its cached state, and the
  world is the same afterwards: same map, same store, same log of calls. Any sequence of
  such calls therefore leaves the world as it is. For a client that is Equal to itself,
  any sequence of \<^verbatim>\<open>Observe\<close> and \<^verbatim>\<open>ObservedStateResolver\<close> calls for one identity with that
  client, from a world that satisfies the invariant, makes at most one call of
  \<^verbatim>\<open>NewObserver\<close>.
\<close>

theorem hot_path:
  "(DAList.lookup (observers (mgr w)) k = Some p \<and> p < length (heap w) \<and>
      Equal (esClient (heap w ! p)) c \<longrightarrow>
      Observe Equal k c w = Some (p, w) \<and>
      ObservedStateResolver Equal k c w = Some (lastState (heap w ! p), w) \<and>
      (set xs \<subseteq> {ObserveOp k c, ResolveOp k c} \<longrightarrow> run Equal xs w = Some w)) \<and>
   (Inv w \<and> Equal c c \<and> set xs \<subseteq> {ObserveOp k c, ResolveOp k c} \<longrightarrow>
      (\<exists>w'. run Equal xs w = Some w' \<and> created (calls w') \<le> Suc (created (calls w))))"
proof (intro conjI impI; (elim conjE)?)
  assume h: "DAList.lookup (observers (mgr w)) k = Some p" "p < length (heap w)"
    "Equal (esClient (heap w ! p)) c"
  then show o: "Observe Equal k c w = Some (p, w)" by (rule Observe_hot)
  then show "ObservedStateResolver Equal k c w = Some (lastState (heap w ! p), w)"
    by (rule ObservedStateResolver_eq)
  assume "set xs \<subseteq> {ObserveOp k c, ResolveOp k c}"
  with h show "run Equal xs w = Some w" by (rule run_hot)
next
  assume "Inv w" "Equal c c" "set xs \<subseteq> {ObserveOp k c, ResolveOp k c}"
  then show "\<exists>w'. run Equal xs w = Some w' \<and> created (calls w') \<le> Suc (created (calls w))"
    by (rule run_same_client)
qed

theorem hot_path_witness:
  "DAList.lookup (observers (mgr W1)) es1 = Some 0 \<and> 0 < length (heap W1) \<and>
   esClient (heap W1 ! 0) = 1 \<and>
   Observe (=) es1 1 W1 = Some (0, W1) \<and>
   ObservedStateResolver (=) es1 1 W1 = Some (Some 5, W1) \<and>
   run (=) [ResolveOp es1 1, ObserveOp es1 1, ResolveOp es1 1] W1 = Some W1 \<and>
   Inv (init 7 :: (nat, nat, nat) world) \<and>
   (\<exists>w'. run (=) [ResolveOp es1 1, ObserveOp es1 1, ResolveOp es1 1]
            (init 7 :: (nat, nat, nat) world) = Some w' \<and>
          created (calls w') \<le> 1)"
proof -
  have h: "DAList.lookup (observers (mgr W1)) es1 = Some 0" "0 < length (heap W1)"
    "esClient (heap W1 ! 0) = 1"
    by simp_all
  have s: "set [ResolveOp es1 1, ObserveOp es1 1, ResolveOp es1 1]
    \<subseteq> {ObserveOp es1 (1::nat), ResolveOp es1 1}"
    by simp
  have i: "Inv (init 7 :: (nat, nat, nat) world)"
    by (simp add: Inv_def init_def NewManager_def DAList.empty.rep_eq)
  have z: "created (calls (init 7 :: (nat, nat, nat) world)) = 0"
    by (simp add: init_def)
  from hot_path[of W1 es1 0 "(=)" 1 "[ResolveOp es1 1, ObserveOp es1 1, ResolveOp es1 1]"]
    hot_path[of "init 7 :: (nat, nat, nat) world" es1 0 "(=)" 1
      "[ResolveOp es1 1, ObserveOp es1 1, ResolveOp es1 1]"]
    h s i z
  show ?thesis by simp
qed

subsection \<open>The settings\<close>

lemma settings_createObserver:
  assumes "settings (mgr w) = st" "\<forall>ob \<in> set (heap w). osettings ob = st"
  shows "settings (mgr (snd (createObserver k c w))) = st \<and>
         (\<forall>ob \<in> set (heap (snd (createObserver k c w))). osettings ob = st)"
  using assms by (auto simp: createObserver_eq)

lemma settings_StopObserving:
  assumes "StopObserving k w = Some w'"
    and "settings (mgr w) = st" "\<forall>ob \<in> set (heap w). osettings ob = st"
  shows "settings (mgr w') = st \<and> (\<forall>ob \<in> set (heap w'). osettings ob = st)"
proof (cases "DAList.lookup (observers (mgr w)) k")
  case None
  with assms show ?thesis by (simp add: StopObserving_absent)
next
  case (Some p)
  with assms(1) have p: "p < length (heap w)"
    by (auto simp: StopObserving_def Stop_def split: if_splits)
  have "osettings ob = st"
    if "ob \<in> set ((heap w)[p := (heap w ! p)\<lparr>stopped := True\<rparr>])" for ob
  proof -
    from that have "ob = (heap w ! p)\<lparr>stopped := True\<rparr> \<or> ob \<in> set (heap w)"
      using set_update_subset_insert[of "heap w" p] by auto
    with assms(3) p show ?thesis by auto
  qed
  with assms Some p show ?thesis
    by (auto simp: StopObserving_present)
qed

lemma settings_Observe:
  assumes "Observe Equal k c w = Some (p, w')"
    and "settings (mgr w) = st" "\<forall>ob \<in> set (heap w). osettings ob = st"
  shows "settings (mgr w') = st \<and> (\<forall>ob \<in> set (heap w'). osettings ob = st)"
proof (cases "DAList.lookup (observers (mgr w)) k")
  case None
  with assms(1) have "w' = snd (createObserver k c w)" by (simp add: Observe_absent)
  with settings_createObserver[OF assms(2,3), of k c] show ?thesis by simp
next
  case (Some q)
  show ?thesis
  proof (cases "q < length (heap w) \<and> Equal (esClient (heap w ! q)) c")
    case True
    with Some assms show ?thesis by (simp add: Observe_hot)
  next
    case False
    with Some assms(1) obtain w1
      where w1: "StopObserving k w = Some w1" "w' = snd (createObserver k c w1)"
      by (auto simp: Observe_def esClientOf_def split: option.splits if_splits)
    from settings_StopObserving[OF w1(1) assms(2,3)]
    have "settings (mgr w1) = st" "\<forall>ob \<in> set (heap w1). osettings ob = st" by simp_all
    from settings_createObserver[OF this, of k c] w1(2) show ?thesis by simp
  qed
qed

lemma settings_step:
  assumes "step Equal x w = Some w'"
    and "settings (mgr w) = st" "\<forall>ob \<in> set (heap w). osettings ob = st"
  shows "settings (mgr w') = st \<and> (\<forall>ob \<in> set (heap w'). osettings ob = st)"
proof (cases x)
  case (ObserveOp k c)
  with assms(1) obtain p where "Observe Equal k c w = Some (p, w')" by auto
  from settings_Observe[OF this assms(2,3)] show ?thesis .
next
  case (ResolveOp k c)
  with assms(1) have "step Equal (ObserveOp k c) w = Some w'"
    by (simp only: step_Resolve_Observe)
  then obtain p where "Observe Equal k c w = Some (p, w')" by auto
  from settings_Observe[OF this assms(2,3)] show ?thesis .
next
  case (CreateOp k c)
  with assms(1) have "w' = snd (createObserver k c w)" by simp
  with settings_createObserver[OF assms(2,3), of k c] show ?thesis by simp
next
  case (StopOp k)
  with assms(1) have "StopObserving k w = Some w'" by simp
  from settings_StopObserving[OF this assms(2,3)] show ?thesis .
next
  case ListOp
  with assms show ?thesis by simp
qed

lemma settings_run:
  assumes "run Equal xs w = Some w'"
    and "settings (mgr w) = st" "\<forall>ob \<in> set (heap w). osettings ob = st"
  shows "settings (mgr w') = st \<and> (\<forall>ob \<in> set (heap w'). osettings ob = st)"
  using assms
proof (induction xs arbitrary: w)
  case Nil
  then show ?case by simp
next
  case (Cons x xs)
  from Cons.prems(1) obtain w1 where s: "step Equal x w = Some w1" "run Equal xs w1 = Some w'"
    by (auto split: option.splits)
  from settings_step[OF s(1) Cons.prems(2,3)]
  have "settings (mgr w1) = st" "\<forall>ob \<in> set (heap w1). osettings ob = st" by simp_all
  from Cons.IH[OF s(2) this] show ?case .
qed

text \<open>
  C8. \<^verbatim>\<open>createObserver\<close> makes one call of \<^verbatim>\<open>NewObserver\<close> with the identity, the client and
  the manager's settings, stores the new pointer under the identity whatever was there
  before, leaves every older watcher as it was (no \<^verbatim>\<open>Stop\<close> is called), and returns
  the new pointer. \<^verbatim>\<open>NewManager\<close> keeps the settings it is given, no operation changes them,
  and so every watcher in the store after any sequence of operations on a fresh manager
  carries the settings the manager was constructed with.
\<close>

theorem createObserver_semantics:
  "(\<exists>w'. createObserver k c (w :: ('c, 's, 'o) world) = (length (heap w), w') \<and>
      heap w' = heap w @ [\<lparr>cluster = k, esClient = c, osettings = settings (mgr w),
                           stopped = False, lastState = None\<rparr>] \<and>
      calls w' = calls w @ [NewObserverCall (length (heap w))] \<and>
      observers (mgr w') = DAList.update k (length (heap w)) (observers (mgr w)) \<and>
      DAList.lookup (observers (mgr w')) k = Some (length (heap w)) \<and>
      settings (mgr w') = settings (mgr w)) \<and>
   settings (NewManager st) = st \<and>
   (run Equal xs (init st) = Some (w2 :: ('c, 's, 'o) world) \<longrightarrow>
      settings (mgr w2) = st \<and> (\<forall>ob \<in> set (heap w2). osettings ob = st))"
proof (intro conjI impI)
  show "\<exists>w'. createObserver k c w = (length (heap w), w') \<and>
      heap w' = heap w @ [\<lparr>cluster = k, esClient = c, osettings = settings (mgr w),
                           stopped = False, lastState = None\<rparr>] \<and>
      calls w' = calls w @ [NewObserverCall (length (heap w))] \<and>
      observers (mgr w') = DAList.update k (length (heap w)) (observers (mgr w)) \<and>
      DAList.lookup (observers (mgr w')) k = Some (length (heap w)) \<and>
      settings (mgr w') = settings (mgr w)"
    by (simp add: createObserver_eq)
  show "settings (NewManager st) = st" by (simp add: NewManager_def)
  assume r: "run Equal xs (init st) = Some w2"
  have "settings (mgr (init st :: ('c, 's, 'o) world)) = st"
    "\<forall>ob \<in> set (heap (init st :: ('c, 's, 'o) world)). osettings ob = st"
    by (simp_all add: init_def NewManager_def)
  from settings_run[OF r this]
  show "settings (mgr w2) = st" "\<forall>ob \<in> set (heap w2). osettings ob = st" by simp_all
qed

theorem createObserver_semantics_witness:
  "(\<exists>w'. createObserver es1 2 W1 = (1, w') \<and>
      heap w' = [\<lparr>cluster = es1, esClient = 1, osettings = 7, stopped = False,
                  lastState = Some 5\<rparr>,
                 \<lparr>cluster = es1, esClient = 2, osettings = 7, stopped = False,
                  lastState = None\<rparr>] \<and>
      calls w' = [NewObserverCall 0, NewObserverCall 1] \<and>
      DAList.lookup (observers (mgr w')) es1 = Some 1) \<and>
   (\<exists>w2. run (=) [CreateOp es1 (1::nat), ObserveOp es1 2] (init (7::nat) :: (nat, nat, nat) world)
           = Some w2 \<and>
      settings (mgr w2) = 7 \<and> map osettings (heap w2) = [7, 7])"
proof -
  let ?w2 = "\<lparr>mgr = \<lparr>observers = DAList.update es1 1 (DAList.delete es1
                 (DAList.update es1 0 DAList.empty)), settings = 7::nat\<rparr>,
          heap = [\<lparr>cluster = es1, esClient = 1::nat, osettings = 7::nat, stopped = True,
                   lastState = None :: nat option\<rparr>,
                  \<lparr>cluster = es1, esClient = 2, osettings = 7, stopped = False,
                   lastState = None\<rparr>],
          calls = [NewObserverCall 0, StopCall 0, NewObserverCall 1]\<rparr>"
  have r: "run (=) [CreateOp es1 (1::nat), ObserveOp es1 2] (init (7::nat) :: (nat, nat, nat) world)
    = Some ?w2"
    by (simp add: createObserver_eq init_def NewManager_def Observe_def esClientOf_def
        StopObserving_def Stop_def)
  from createObserver_semantics[of es1 2 W1 7 "(=)" "[CreateOp es1 1, ObserveOp es1 2]" ?w2] r
  show ?thesis by auto
qed

subsection \<open>Resolve against the specification's account of it\<close>

lemma ObservedStateResolver_refines:
  assumes "\<forall>p. DAList.lookup (observers (mgr w)) k = Some p \<longrightarrow> p < length (heap w)"
  shows "ObservedStateResolver Equal k c w = Some (Resolve_spec Equal k c w)"
proof (cases "DAList.lookup (observers (mgr w)) k")
  case None
  then show ?thesis
    by (simp add: ObservedStateResolver_def Observe_absent Resolve_spec_def
        createObserver_eq LastState_def)
next
  case (Some p)
  with assms have p: "p < length (heap w)" by simp
  show ?thesis
  proof (cases "Equal (esClient (heap w ! p)) c")
    case True
    with Some p show ?thesis
      by (simp add: ObservedStateResolver_eq[OF Observe_hot] Resolve_spec_def)
  next
    case False
    with Some p show ?thesis
      by (simp add: ObservedStateResolver_def Observe_replace[of w k p Equal c]
          StopObserving_present Resolve_spec_def createObserver_eq LastState_def
          nth_append Let_def)
  qed
qed

text \<open>
  C9. \<^verbatim>\<open>ObservedStateResolver\<close> is \<^verbatim>\<open>Observe\<close> followed by \<^verbatim>\<open>LastState\<close> on the watcher that
  \<^verbatim>\<open>Observe\<close> returned: the read of the state cannot fail on that watcher, the value is
  that watcher's cached state in the world \<^verbatim>\<open>Observe\<close> left, and both calls leave the same
  world (also when \<^verbatim>\<open>Observe\<close> panics: then both do). Where every registered pointer is
  an object of the store, the result is the one that the specification's four cases of
  Resolve describe.
\<close>

theorem Resolve_is_Observe_then_LastState:
  "(Observe Equal k c w = Some (p, w') \<longrightarrow>
      LastState p w' = Some (lastState (heap w' ! p)) \<and>
      ObservedStateResolver Equal k c w = Some (lastState (heap w' ! p), w')) \<and>
   (Observe Equal k c w = None \<longrightarrow> ObservedStateResolver Equal k c w = None) \<and>
   step Equal (ResolveOp k c) w = step Equal (ObserveOp k c) w \<and>
   ((\<forall>q. DAList.lookup (observers (mgr w)) k = Some q \<longrightarrow> q < length (heap w)) \<longrightarrow>
      ObservedStateResolver Equal k c w = Some (Resolve_spec Equal k c w))"
proof (intro conjI impI)
  assume o: "Observe Equal k c w = Some (p, w')"
  from Observe_post(2)[OF o] show "LastState p w' = Some (lastState (heap w' ! p))"
    by (simp add: LastState_def)
  from o show "ObservedStateResolver Equal k c w = Some (lastState (heap w' ! p), w')"
    by (rule ObservedStateResolver_eq)
next
  assume "Observe Equal k c w = None"
  then show "ObservedStateResolver Equal k c w = None"
    by (simp add: ObservedStateResolver_def)
next
  show "step Equal (ResolveOp k c) w = step Equal (ObserveOp k c) w"
    by (rule step_Resolve_Observe)
next
  assume "\<forall>q. DAList.lookup (observers (mgr w)) k = Some q \<longrightarrow> q < length (heap w)"
  then show "ObservedStateResolver Equal k c w = Some (Resolve_spec Equal k c w)"
    by (rule ObservedStateResolver_refines)
qed

theorem Resolve_is_Observe_then_LastState_witness:
  "Observe (=) es1 1 W1 = Some (0, W1) \<and>
   LastState 0 W1 = Some (Some 5) \<and>
   ObservedStateResolver (=) es1 1 W1 = Some (Some 5, W1) \<and>
   Resolve_spec (=) es1 1 W1 = (Some 5, W1) \<and>
   (\<exists>w'. Observe (=) es1 2 W1 = Some (1, w') \<and>
      ObservedStateResolver (=) es1 2 W1 = Some (None, w') \<and>
      Resolve_spec (=) es1 2 W1 = (None, w'))"
proof -
  have o1: "Observe (=) es1 1 W1 = Some (0, W1)"
    by (simp add: Observe_def esClientOf_def)
  let ?w' = "\<lparr>mgr = \<lparr>observers = DAList.update es1 1 (DAList.delete es1
                 (DAList.update es1 0 DAList.empty)), settings = 7::nat\<rparr>,
          heap = [\<lparr>cluster = es1, esClient = 1::nat, osettings = 7::nat, stopped = True,
                   lastState = Some (5::nat)\<rparr>,
                  \<lparr>cluster = es1, esClient = 2, osettings = 7, stopped = False,
                   lastState = None\<rparr>],
          calls = [NewObserverCall 0, StopCall 0, NewObserverCall 1]\<rparr>"
  have o2: "Observe (=) es1 2 W1 = Some (1, ?w')"
    by (simp add: Observe_def esClientOf_def StopObserving_def Stop_def createObserver_eq)
  have v: "\<forall>q. DAList.lookup (observers (mgr W1)) es1 = Some q \<longrightarrow> q < length (heap W1)"
    by simp
  note t1 = Resolve_is_Observe_then_LastState[of "(=)" es1 1 W1 0 W1]
  note t2 = Resolve_is_Observe_then_LastState[of "(=)" es1 2 W1 1 ?w']
  have l1: "LastState 0 W1 = Some (lastState (heap W1 ! 0))"
    using t1 o1 by blast
  have r1: "ObservedStateResolver (=) es1 1 W1 = Some (lastState (heap W1 ! 0), W1)"
    using t1 o1 by blast
  have q1: "ObservedStateResolver (=) es1 1 W1 = Some (Resolve_spec (=) es1 1 W1)"
    using t1 v by blast
  have r2: "ObservedStateResolver (=) es1 2 W1 = Some (lastState (heap ?w' ! 1), ?w')"
    using t2 o2 by blast
  have q2: "ObservedStateResolver (=) es1 2 W1 = Some (Resolve_spec (=) es1 2 W1)"
    using t2 v by blast
  from r1 q1 have s1: "Resolve_spec (=) es1 1 W1 = (Some 5, W1)" by simp
  from r2 q2 have s2: "Resolve_spec (=) es1 2 W1 = (None, ?w')" by simp
  from l1 have l1': "LastState 0 W1 = Some (Some 5)" by simp
  from r1 have r1': "ObservedStateResolver (=) es1 1 W1 = Some (Some 5, W1)" by simp
  from r2 have r2': "ObservedStateResolver (=) es1 2 W1 = Some (None, ?w')" by simp
  from o1 o2 l1' r1' r2' s1 s2 show ?thesis by blast
qed

subsection \<open>What a call leaves alone\<close>

lemma StopObserving_frame:
  assumes "StopObserving k w = Some w'" "Inv w" "k' \<noteq> k"
  shows "DAList.lookup (observers (mgr w')) k' = DAList.lookup (observers (mgr w)) k' \<and>
         (\<forall>p'. DAList.lookup (observers (mgr w)) k' = Some p' \<longrightarrow>
            heap w' ! p' = heap w ! p' \<and>
            (\<exists>cs. calls w' = calls w @ cs \<and> StopCall p' \<notin> set cs))"
proof (cases "DAList.lookup (observers (mgr w)) k")
  case None
  with assms(1) show ?thesis by (simp add: StopObserving_absent)
next
  case (Some q)
  with assms(2) have q: "q < length (heap w)" "cluster (heap w ! q) = k"
    by (auto simp: Inv_lookup)
  have other: "p' \<noteq> q" if "DAList.lookup (observers (mgr w)) k' = Some p'" for p'
  proof
    assume "p' = q"
    with that assms(2) have "cluster (heap w ! q) = k'" by (auto simp: Inv_lookup)
    with q(2) assms(3) show False by simp
  qed
  from assms(1) Some q(1) have w': "w' =
     \<lparr>mgr = \<lparr>observers = DAList.delete k (observers (mgr w)),
              settings = settings (mgr w)\<rparr>,
      heap = (heap w)[q := (heap w ! q)\<lparr>stopped := True\<rparr>],
      calls = calls w @ [StopCall q]\<rparr>"
    by (simp add: StopObserving_present)
  show ?thesis
    using assms(3) other by (auto simp: w')
qed

lemma createObserver_frame:
  assumes "Inv w" "k' \<noteq> k"
  shows "DAList.lookup (observers (mgr (snd (createObserver k c w)))) k'
           = DAList.lookup (observers (mgr w)) k' \<and>
         (\<forall>p'. DAList.lookup (observers (mgr w)) k' = Some p' \<longrightarrow>
            heap (snd (createObserver k c w)) ! p' = heap w ! p' \<and>
            (\<exists>cs. calls (snd (createObserver k c w)) = calls w @ cs \<and> StopCall p' \<notin> set cs))"
proof -
  have "p' < length (heap w)" if "DAList.lookup (observers (mgr w)) k' = Some p'" for p'
    using that assms(1) by (auto simp: Inv_lookup)
  then show ?thesis
    using assms(2) by (auto simp: createObserver_eq nth_append)
qed

lemma Observe_frame:
  assumes "Observe Equal k c w = Some (p, w')" "Inv w" "k' \<noteq> k"
  shows "DAList.lookup (observers (mgr w')) k' = DAList.lookup (observers (mgr w)) k' \<and>
         (\<forall>p'. DAList.lookup (observers (mgr w)) k' = Some p' \<longrightarrow>
            heap w' ! p' = heap w ! p' \<and>
            (\<exists>cs. calls w' = calls w @ cs \<and> StopCall p' \<notin> set cs))"
proof (cases "DAList.lookup (observers (mgr w)) k")
  case None
  with assms(1) have "w' = snd (createObserver k c w)" by (simp add: Observe_absent)
  with createObserver_frame[OF assms(2,3), of c] show ?thesis by simp
next
  case (Some q)
  with assms(2) have q: "q < length (heap w)" by (auto simp: Inv_lookup)
  show ?thesis
  proof (cases "Equal (esClient (heap w ! q)) c")
    case True
    with Some q assms(1) show ?thesis by (simp add: Observe_hot)
  next
    case False
    from Inv_StopObserving[OF assms(2), of k] obtain w1
      where w1: "StopObserving k w = Some w1" "Inv w1" by blast
    with assms(1) Some q False have w': "w' = snd (createObserver k c w1)"
      by (simp add: Observe_replace[of w k q Equal c])
    note f1 = StopObserving_frame[OF w1(1) assms(2,3)]
    note f2 = createObserver_frame[OF w1(2) assms(3), of c]
    show ?thesis
    proof (intro conjI allI impI)
      show "DAList.lookup (observers (mgr w')) k' = DAList.lookup (observers (mgr w)) k'"
        using f1 f2 w' by simp
    next
      fix p'
      assume l: "DAList.lookup (observers (mgr w)) k' = Some p'"
      with f1 have l1: "DAList.lookup (observers (mgr w1)) k' = Some p'" by simp
      from f1 l have a: "heap w1 ! p' = heap w ! p'" by blast
      from f2 l1 w' have b: "heap w' ! p' = heap w1 ! p'" by blast
      from a b show "heap w' ! p' = heap w ! p'" by simp
      from f1 l obtain cs1 where c1: "calls w1 = calls w @ cs1" "StopCall p' \<notin> set cs1"
        by blast
      from f2 l1 w' obtain cs2 where c2: "calls w' = calls w1 @ cs2" "StopCall p' \<notin> set cs2"
        by blast
      from c1 c2 have "calls w' = calls w @ (cs1 @ cs2) \<and> StopCall p' \<notin> set (cs1 @ cs2)"
        by simp
      then show "\<exists>cs. calls w' = calls w @ cs \<and> StopCall p' \<notin> set cs" by blast
    qed
  qed
qed

text \<open>
  C10. (i) When \<^verbatim>\<open>Observe\<close> returns a watcher, the entry of the identity is that very
  pointer, the pointer is an object of the store, and the client of that watcher is the
  supplied one or is Equal to it; so it is Equal to it whenever the supplied client is
  Equal to itself. (ii) In a world that satisfies the invariant, \<^verbatim>\<open>Observe\<close> and
  \<^verbatim>\<open>StopObserving\<close> for one identity leave the entry of every other identity as it was,
  leave that entry's watcher object as it was, and call \<^verbatim>\<open>Stop\<close> on no watcher of another
  identity.
\<close>

theorem Observe_entry_and_frame:
  "(Observe Equal k c w = Some (p, w') \<longrightarrow>
      DAList.lookup (observers (mgr w')) k = Some p \<and> p < length (heap w') \<and>
      (esClient (heap w' ! p) = c \<or> Equal (esClient (heap w' ! p)) c) \<and>
      (Equal c c \<longrightarrow> Equal (esClient (heap w' ! p)) c)) \<and>
   (Inv w \<and> k' \<noteq> k \<and> (Observe Equal k c w = Some (p, w') \<or> StopObserving k w = Some w') \<longrightarrow>
      DAList.lookup (observers (mgr w')) k' = DAList.lookup (observers (mgr w)) k' \<and>
      (\<forall>p'. DAList.lookup (observers (mgr w)) k' = Some p' \<longrightarrow>
         heap w' ! p' = heap w ! p' \<and>
         (\<exists>cs. calls w' = calls w @ cs \<and> StopCall p' \<notin> set cs)))"
proof (intro conjI)
  show "Observe Equal k c w = Some (p, w') \<longrightarrow>
      DAList.lookup (observers (mgr w')) k = Some p \<and> p < length (heap w') \<and>
      (esClient (heap w' ! p) = c \<or> Equal (esClient (heap w' ! p)) c) \<and>
      (Equal c c \<longrightarrow> Equal (esClient (heap w' ! p)) c)"
  proof
    assume o: "Observe Equal k c w = Some (p, w')"
    from Observe_post(1-3)[OF o] show "DAList.lookup (observers (mgr w')) k = Some p \<and>
      p < length (heap w') \<and>
      (esClient (heap w' ! p) = c \<or> Equal (esClient (heap w' ! p)) c) \<and>
      (Equal c c \<longrightarrow> Equal (esClient (heap w' ! p)) c)"
      by auto
  qed
next
  show "Inv w \<and> k' \<noteq> k \<and> (Observe Equal k c w = Some (p, w') \<or> StopObserving k w = Some w') \<longrightarrow>
      DAList.lookup (observers (mgr w')) k' = DAList.lookup (observers (mgr w)) k' \<and>
      (\<forall>p'. DAList.lookup (observers (mgr w)) k' = Some p' \<longrightarrow>
         heap w' ! p' = heap w ! p' \<and>
         (\<exists>cs. calls w' = calls w @ cs \<and> StopCall p' \<notin> set cs))"
  proof
    assume h: "Inv w \<and> k' \<noteq> k \<and>
      (Observe Equal k c w = Some (p, w') \<or> StopObserving k w = Some w')"
    then have i: "Inv w" and n: "k' \<noteq> k" by simp_all
    from h consider "Observe Equal k c w = Some (p, w')" | "StopObserving k w = Some w'"
      by blast
    then show "DAList.lookup (observers (mgr w')) k' = DAList.lookup (observers (mgr w)) k' \<and>
      (\<forall>p'. DAList.lookup (observers (mgr w)) k' = Some p' \<longrightarrow>
         heap w' ! p' = heap w ! p' \<and>
         (\<exists>cs. calls w' = calls w @ cs \<and> StopCall p' \<notin> set cs))"
    proof cases
      case 1
      from Observe_frame[OF 1 i n] show ?thesis .
    next
      case 2
      from StopObserving_frame[OF 2 i n] show ?thesis .
    qed
  qed
qed

theorem Observe_entry_and_frame_witness:
  "Inv W2 \<and> es2 \<noteq> es1 \<and>
   (\<exists>w'. Observe (=) es1 2 W2 = Some (2, w') \<and>
      DAList.lookup (observers (mgr w')) es1 = Some 2 \<and>
      esClient (heap w' ! 2) = 2 \<and>
      DAList.lookup (observers (mgr w')) es2 = Some 1 \<and>
      heap w' ! 1 = heap W2 ! 1 \<and>
      calls w' = calls W2 @ [StopCall 0, NewObserverCall 2])"
proof -
  let ?w' = "\<lparr>mgr = \<lparr>observers = DAList.update es1 2 (DAList.delete es1
                 (DAList.update es2 1 (DAList.update es1 0 DAList.empty))),
                 settings = 7::nat\<rparr>,
          heap = [\<lparr>cluster = es1, esClient = 1::nat, osettings = 7::nat, stopped = True,
                   lastState = Some (5::nat)\<rparr>,
                  \<lparr>cluster = es2, esClient = 3, osettings = 7, stopped = False,
                   lastState = None\<rparr>,
                  \<lparr>cluster = es1, esClient = 2, osettings = 7, stopped = False,
                   lastState = None\<rparr>],
          calls = [NewObserverCall 0, NewObserverCall 1, StopCall 0, NewObserverCall 2]\<rparr>"
  have i: "Inv W2"
    by (simp add: Inv_def live_entry_def DAList.update.rep_eq DAList.empty.rep_eq)
  have n: "es2 \<noteq> es1" by simp
  have o: "Observe (=) es1 2 W2 = Some (2, ?w')"
    by (simp add: Observe_def esClientOf_def StopObserving_def Stop_def createObserver_eq
        DAList.lookup_update numeral_2_eq_2)
  have r: "(2::nat) = 2" by simp
  note t = Observe_entry_and_frame[of "(=)" es1 2 W2 2 ?w' es2]
  from t o have a: "DAList.lookup (observers (mgr ?w')) es1 = Some 2" by blast
  from t o r have b: "esClient (heap ?w' ! 2) = 2" by blast
  from t o i n have c: "DAList.lookup (observers (mgr ?w')) es2
    = DAList.lookup (observers (mgr W2)) es2" by blast
  have l: "DAList.lookup (observers (mgr W2)) es2 = Some 1" by simp
  from t o i n l have d: "heap ?w' ! 1 = heap W2 ! 1" by blast
  have e: "calls ?w' = calls W2 @ [StopCall 0, NewObserverCall 2]" by simp
  from c l have c': "DAList.lookup (observers (mgr ?w')) es2 = Some 1" by simp
  from i n o a b c' d e show ?thesis by blast
qed

end
